theory Spec2Isabelle
  imports Main "HOL-Library.Word"
begin

unbundle bit_operations_syntax

section \<open>Results of an operation\<close>

text \<open>
  The library consists of constexpr function templates without any runtime error
  channel.  Two things can go wrong nevertheless, and the model keeps them apart:
  \<^item> the call does not compile (a \<^verbatim>\<open>static_assert\<close> fails, or no overload is viable);
  \<^item> the call compiles and has undefined behaviour (an element is read outside the
    storage an iterator points into, or a shift count reaches the width of the shifted
    type).
\<close>

datatype fault = IllFormed | UndefinedBehaviour

type_synonym 'a res = "fault + 'a"

definition rbind :: "'a res \<Rightarrow> ('a \<Rightarrow> 'b res) \<Rightarrow> 'b res" where
  "rbind r f = (case r of Inl e \<Rightarrow> Inl e | Inr x \<Rightarrow> f x)"

lemma rbind_cong [fundef_cong]:
  "r = r' \<Longrightarrow> (\<And>x. r' = Inr x \<Longrightarrow> f x = f' x) \<Longrightarrow> rbind r f = rbind r' f'"
  by (cases r') (simp_all add: rbind_def)

section \<open>Iterators\<close>

text \<open>
  An iterator is a position in the storage of some container.  \<open>reversed\<close> tells a
  \<^verbatim>\<open>reverse_iterator\<close> (as \<^verbatim>\<open>crbegin()\<close> returns) from a pointer; for a reverse iterator
  \<open>pos\<close> is the position of its \<^verbatim>\<open>base()\<close>, so that it designates the element before
  that position.
\<close>

datatype 'a iterator = Iterator (storage: "'a list") (reversed: bool) (pos: int)

text \<open>
  \<^verbatim>\<open>&arr.front()\<close>, \<^verbatim>\<open>arr.crbegin()\<close> and \<^verbatim>\<open>arr.crend()\<close> of a \<^verbatim>\<open>std::array\<close>.  The pointer
  to the front is the position 0 of the storage, also for an array without elements,
  through which the callers read no element.
\<close>

definition front_ptr :: "'a list \<Rightarrow> 'a iterator" where
  "front_ptr arr = Iterator arr False 0"

definition crbegin :: "'a list \<Rightarrow> 'a iterator" where
  "crbegin arr = Iterator arr True (int (length arr))"

definition crend :: "'a list \<Rightarrow> 'a iterator" where
  "crend arr = Iterator arr True 0"

text \<open>\<^verbatim>\<open>it + n\<close>: a reverse iterator moves its base downwards.\<close>

definition it_plus :: "'a iterator \<Rightarrow> nat \<Rightarrow> 'a iterator" where
  "it_plus it n =
     (if reversed it then Iterator (storage it) True (pos it - int n)
      else Iterator (storage it) False (pos it + int n))"

text \<open>
  \<^verbatim>\<open>last - first\<close>.  Both operands have the same C++ type, hence the same direction,
  which is taken from \<open>first\<close>.
\<close>

definition it_diff :: "'a iterator \<Rightarrow> 'a iterator \<Rightarrow> int" where
  "it_diff lst first =
     (if reversed first then pos first - pos lst else pos lst - pos first)"

text \<open>Reading the storage at an absolute position; outside of it the read is undefined.\<close>

definition read_at :: "'a list \<Rightarrow> int \<Rightarrow> 'a res" where
  "read_at buf k =
     (if 0 \<le> k \<and> k < int (length buf) then Inr (buf ! nat k) else Inl UndefinedBehaviour)"

text \<open>\<^verbatim>\<open>it[I]\<close>.\<close>

definition it_index :: "'a iterator \<Rightarrow> nat \<Rightarrow> 'a res" where
  "it_index it I =
     (if reversed it then read_at (storage it) (pos it - 1 - int I)
      else read_at (storage it) (pos it + int I))"

text \<open>A pack expansion whose elements may each go wrong, evaluated from left to right.\<close>

fun collect :: "'a res list \<Rightarrow> 'a list res" where
  "collect [] = Inr []"
| "collect (r # rs) = rbind r (\<lambda>x. rbind (collect rs) (\<lambda>xs. Inr (x # xs)))"

lemma collect_length: "collect rs = Inr xs \<Longrightarrow> length xs = length rs"
  by (induction rs arbitrary: xs) (auto simp: rbind_def split: sum.splits)

text \<open>The pack expansion \<^verbatim>\<open>{first[I]...}\<close>.\<close>

definition read_pack :: "'a iterator \<Rightarrow> nat list \<Rightarrow> 'a list res" where
  "read_pack first Is = collect (map (it_index first) Is)"

text \<open>The measured distance of a range, \<^verbatim>\<open>|last - first|\<close>.\<close>

definition it_distance :: "'a iterator \<Rightarrow> 'a iterator \<Rightarrow> nat" where
  "it_distance first lst = nat \<bar>it_diff lst first\<bar>"

section \<open>Namespace RangedArray\<close>

text \<open>\<^verbatim>\<open>std::make_index_sequence<size>\<close>.\<close>

definition make_index_sequence :: "nat \<Rightarrow> nat list" where
  "make_index_sequence n = [0..<n]"

text \<open>
  \<^verbatim>\<open>array(first, last, std::index_sequence<I...>)\<close>.  The parameter \<open>vmax\<close> is
  \<^verbatim>\<open>std::numeric_limits<ValueType<Iterator>>::max()\<close> of the element type.
\<close>

definition array_seq :: "'a \<Rightarrow> 'a iterator \<Rightarrow> 'a iterator \<Rightarrow> nat list \<Rightarrow> 'a list res" where
  "array_seq vmax first lst Is =
     (let range = (if it_diff lst first \<ge> 0 then nat (it_diff lst first)
                   else nat (it_diff first lst))
      in if range \<le> length Is then read_pack first Is
         else Inr (map (\<lambda>I. vmax) Is))"

text \<open>\<^verbatim>\<open>array<size>(first, last)\<close>.\<close>

definition array_range :: "'a \<Rightarrow> nat \<Rightarrow> 'a iterator \<Rightarrow> 'a iterator \<Rightarrow> 'a list res" where
  "array_range vmax n first lst = array_seq vmax first lst (make_index_sequence n)"

text \<open>\<^verbatim>\<open>array<size>(first)\<close>.\<close>

definition array_from :: "'a \<Rightarrow> nat \<Rightarrow> 'a iterator \<Rightarrow> 'a list res" where
  "array_from vmax n first = array_range vmax n first (it_plus first n)"

text \<open>
  \<^verbatim>\<open>merge(A, std::index_sequence<IA...>, B, std::index_sequence<IB...>)\<close>.  Its
  \<^verbatim>\<open>static_assert\<close> on equal value types is the typing of the two iterators here.
\<close>

definition merge_seq :: "'a iterator \<Rightarrow> nat list \<Rightarrow> 'a iterator \<Rightarrow> nat list \<Rightarrow> 'a list res" where
  "merge_seq A IA B IB =
     rbind (read_pack A IA) (\<lambda>xs. rbind (read_pack B IB) (\<lambda>ys. Inr (xs @ ys)))"

text \<open>\<^verbatim>\<open>merge(arr)\<close>, the trivial case.\<close>

definition merge1 :: "'a list \<Rightarrow> 'a list res" where
  "merge1 arr = Inr arr"

text \<open>\<^verbatim>\<open>merge(arrA, arrB)\<close>.\<close>

definition merge2 :: "'a list \<Rightarrow> 'a list \<Rightarrow> 'a list res" where
  "merge2 arrA arrB =
     merge_seq (front_ptr arrA) (make_index_sequence (length arrA))
               (front_ptr arrB) (make_index_sequence (length arrB))"

text \<open>
  The overload set \<^verbatim>\<open>merge(arrA, arrN...)\<close> on one or more arrays: one array selects the
  trivial overload, two select the binary one (more specialised than the variadic one
  with an empty pack), three or more the variadic one, which merges the first two
  and calls \<^verbatim>\<open>merge\<close> again.
\<close>

fun merge :: "'a list \<Rightarrow> 'a list list \<Rightarrow> 'a list res" where
  "merge arrA [] = merge1 arrA"
| "merge arrA [arrB] = merge2 arrA arrB"
| "merge arrA (arrB # arrC # arrN) =
     rbind (merge2 arrA arrB) (\<lambda>arrAB. merge arrAB (arrC # arrN))"

section \<open>Namespace ByteArray\<close>

type_synonym u8 = "8 word"

text \<open>
  A fixed-width scalar is the word of its bits; a signed type is read in two's
  complement.  \<^verbatim>\<open>sizeof(T)\<close> counts its bytes.
\<close>

definition sizeof_of :: "'a::len word \<Rightarrow> nat" where
  "sizeof_of v = LENGTH('a) div 8"

text \<open>
  The object representation that \<^verbatim>\<open>reinterpret_cast<const std::array<uint8_t, sizeof(T)>&>\<close>
  exposes: the bytes of the value in memory order.  The \<^verbatim>\<open>static_assert\<close> at the head of
  the namespace admits little-endian hosts only, so byte \<open>i\<close> holds bits \<open>8 * i\<close> to
  \<open>8 * i + 7\<close>.
\<close>

definition object_bytes :: "'a::len word \<Rightarrow> u8 list" where
  "object_bytes v = map (\<lambda>i. ucast (drop_bit (8 * i) v)) [0..<sizeof_of v]"

text \<open>\<^verbatim>\<open>std::numeric_limits<uint8_t>::max()\<close>.\<close>

definition uint8_max :: u8 where
  "uint8_max = 255"

text \<open>\<^verbatim>\<open>LSB::is_native\<close> on the little-endian host.\<close>

definition LSB_is_native :: bool where
  "LSB_is_native = True"

text \<open>
  \<^verbatim>\<open>byteArray<T, is_native>(value)\<close>: the first overload is enabled when
  \<^verbatim>\<open>LSB::is_native == is_native\<close> and reads from the front of the object representation, the
  second when \<^verbatim>\<open>LSB::is_native == !is_native\<close> and reads from \<^verbatim>\<open>crbegin()\<close>.
\<close>

definition byteArray_order :: "bool \<Rightarrow> 'a::len word \<Rightarrow> u8 list res" where
  "byteArray_order is_native v =
     (if LSB_is_native = is_native
      then array_from uint8_max (sizeof_of v) (front_ptr (object_bytes v))
      else array_from uint8_max (sizeof_of v) (crbegin (object_bytes v)))"

text \<open>\<^verbatim>\<open>byteArray(value)\<close>, with the default \<^verbatim>\<open>is_native = true\<close>.\<close>

definition byteArray :: "'a::len word \<Rightarrow> u8 list res" where
  "byteArray v = byteArray_order True v"

text \<open>\<^verbatim>\<open>byteArray(first, std::index_sequence<I...>)\<close>; \<^verbatim>\<open>merge()\<close> of no array has no overload.\<close>

definition byteArray_seq :: "'a::len word iterator \<Rightarrow> nat list \<Rightarrow> u8 list res" where
  "byteArray_seq first Is =
     rbind (collect (map (\<lambda>I. rbind (it_index first I) byteArray) Is))
       (\<lambda>parts. case parts of [] \<Rightarrow> Inl IllFormed | arrA # arrN \<Rightarrow> merge arrA arrN)"

text \<open>\<^verbatim>\<open>byteArray<size>(first)\<close>.\<close>

definition byteArray_n :: "nat \<Rightarrow> 'a::len word iterator \<Rightarrow> u8 list res" where
  "byteArray_n n first = byteArray_seq first (make_index_sequence n)"

text \<open>\<^verbatim>\<open>byteArray(arr)\<close> of a \<^verbatim>\<open>std::array\<close>.\<close>

definition byteArray_arr :: "'a::len word list \<Rightarrow> u8 list res" where
  "byteArray_arr arr = byteArray_n (length arr) (front_ptr arr)"

text \<open>
  The values of independent types that the two-parameter and the variadic \<^verbatim>\<open>byteArray\<close>
  take: unsigned scalars of the four widths and arrays of bytes.  \<open>byteArray_obj\<close> is the
  overload resolution of \<^verbatim>\<open>byteArray(value)\<close> on one such value.
\<close>

datatype obj = U8 "8 word" | U16 "16 word" | U32 "32 word" | U64 "64 word" | ArrU8 "u8 list"

fun byteArray_obj :: "obj \<Rightarrow> u8 list res" where
  "byteArray_obj (U8 v) = byteArray v"
| "byteArray_obj (U16 v) = byteArray v"
| "byteArray_obj (U32 v) = byteArray v"
| "byteArray_obj (U64 v) = byteArray v"
| "byteArray_obj (ArrU8 arr) = byteArray_arr arr"

text \<open>\<^verbatim>\<open>byteArray(value1, value2)\<close>.\<close>

definition byteArray2 :: "obj \<Rightarrow> obj \<Rightarrow> u8 list res" where
  "byteArray2 value1 value2 =
     rbind (byteArray_obj value1) (\<lambda>a. rbind (byteArray_obj value2) (\<lambda>b. merge a [b]))"

text \<open>
  The overload set \<^verbatim>\<open>byteArray(value1, valueN...)\<close>: three or more values select the
  variadic overload, which splits the first two together, every other one alone, and
  calls \<^verbatim>\<open>byteArray\<close> on the resulting arrays.
\<close>

function byteArray_variadic :: "obj list \<Rightarrow> u8 list res" where
  "byteArray_variadic [] = Inl IllFormed"
| "byteArray_variadic [value1] = byteArray_obj value1"
| "byteArray_variadic [value1, value2] = byteArray2 value1 value2"
| "byteArray_variadic (value1 # value2 # value3 # valueN) =
     rbind (byteArray2 value1 value2) (\<lambda>a12.
       rbind (collect (map byteArray_obj (value3 # valueN))) (\<lambda>aN.
         byteArray_variadic (ArrU8 a12 # map ArrU8 aN)))"
  by pat_completeness auto
termination
  by (relation "measure length") (auto dest!: collect_length simp del: collect.simps)

text \<open>\<^verbatim>\<open>reverseByteArray(arr)\<close> of a \<^verbatim>\<open>std::array\<close> whose element type has the maximum \<open>vmax\<close>.\<close>

definition reverseByteArray_arr :: "'a::len word \<Rightarrow> 'a word list \<Rightarrow> u8 list res" where
  "reverseByteArray_arr vmax arr =
     rbind (array_range vmax (length arr) (crbegin arr) (crend arr)) byteArray_arr"

text \<open>\<^verbatim>\<open>reverseByteArray(value)\<close> of a scalar.\<close>

definition reverseByteArray :: "'a::len word \<Rightarrow> u8 list res" where
  "reverseByteArray v = byteArray_order False v"

text \<open>
  The width of \<^verbatim>\<open>int\<close>, and the width of a value of type \<open>T\<close> after integral promotion:
  a type narrower than \<^verbatim>\<open>int\<close> is promoted to \<^verbatim>\<open>int\<close>.
\<close>

definition int_bits :: nat where
  "int_bits = 32"

definition promoted_bits :: "'a::len word \<Rightarrow> nat" where
  "promoted_bits v = max int_bits LENGTH('a)"

text \<open>
  The accumulation \<^verbatim>\<open>return_value += static_cast<T>(LSB[I]) << (8 * I)\<close> of
  \<^verbatim>\<open>getInteger(LSB, std::index_sequence<I...>)\<close>, one index after the other.  The shift is
  made in the promoted type and is undefined when the count reaches its width; the
  assignment converts the sum back to \<open>T\<close>, modulo \<open>2 ^ LENGTH('a)\<close>.
\<close>

fun getInteger_pack :: "u8 iterator \<Rightarrow> nat list \<Rightarrow> 'a::len word \<Rightarrow> 'a word res" where
  "getInteger_pack LSB [] return_value = Inr return_value"
| "getInteger_pack LSB (I # Is) return_value =
     rbind (it_index LSB I) (\<lambda>b.
       if promoted_bits return_value \<le> 8 * I then Inl UndefinedBehaviour
       else getInteger_pack LSB Is (return_value + push_bit (8 * I) (ucast b)))"

definition getInteger_seq :: "u8 iterator \<Rightarrow> nat list \<Rightarrow> 'a::len word res" where
  "getInteger_seq LSB Is = getInteger_pack LSB Is 0"

text \<open>\<^verbatim>\<open>getInteger<T, size>(first)\<close> on an iterator.\<close>

definition getInteger_n :: "nat \<Rightarrow> u8 iterator \<Rightarrow> 'a::len word res" where
  "getInteger_n n first = getInteger_seq first (make_index_sequence n)"

text \<open>\<^verbatim>\<open>getInteger<T>(arr)\<close> on a \<^verbatim>\<open>std::array\<close> of bytes, with its \<^verbatim>\<open>static_assert\<close>.\<close>

definition getInteger_arr :: "u8 list \<Rightarrow> 'a::len word res" where
  "getInteger_arr arr =
     (if sizeof_of (0 :: 'a word) \<ge> length arr
      then getInteger_seq (front_ptr arr) (make_index_sequence (length arr))
      else Inl IllFormed)"

text \<open>
  The kinds of types that \<^verbatim>\<open>getInteger<T, Tval, offset>(value)\<close> tells apart:
  \<^verbatim>\<open>std::is_integral\<close> holds of the unsigned and the signed integer types and of
  \<^verbatim>\<open>bool\<close>, whose values are the words 0 (false) and 1 (true).
\<close>

datatype ckind = UnsignedInt | SignedInt | BoolType | NonIntegral

text \<open>
  \<^verbatim>\<open>static_cast<T>\<close> of an integer: to \<^verbatim>\<open>bool\<close> it tells whether the integer is not zero,
  to an integer type it reduces modulo \<open>2 ^ LENGTH('a)\<close>.
\<close>

definition static_cast_int :: "ckind \<Rightarrow> int \<Rightarrow> 'a::len word" where
  "static_cast_int T k = (if T = BoolType then (if k \<noteq> 0 then 1 else 0) else word_of_int k)"

text \<open>
  \<^verbatim>\<open>getInteger<T, Tval, offset>(value)\<close>.  The operand of \<^verbatim>\<open>>>\<close> is promoted to an integer
  that keeps its value (a signed operand is read in two's complement, an unsigned one and
  \<^verbatim>\<open>bool\<close> as they are), and a negative operand is shifted arithmetically.
\<close>

definition getInteger_shift :: "ckind \<Rightarrow> ckind \<Rightarrow> nat \<Rightarrow> 'b::len word \<Rightarrow> 'a::len word res" where
  "getInteger_shift T Tval offset v =
     (if \<not> (Tval \<noteq> NonIntegral \<and> T \<noteq> NonIntegral) then Inl IllFormed
      else if \<not> sizeof_of v \<ge> offset then Inl IllFormed
      else if promoted_bits v \<le> 8 * offset then Inl UndefinedBehaviour
      else Inr (static_cast_int T
             ((if Tval = SignedInt then sint v else uint v) div 2 ^ (8 * offset))))"

section \<open>The frame of HDLC.cc\<close>

record BasicHeader =
  address :: u8
  control :: u8

definition BasicHeader_flag :: u8 where
  "BasicHeader_flag = 0xFE"

definition BasicHeader_serialize :: "BasicHeader \<Rightarrow> u8 list res" where
  "BasicHeader_serialize h =
     byteArray_variadic [U8 BasicHeader_flag, U8 (address h), U8 (control h)]"

record BasicData =
  info :: "u8 list"

definition BasicData_serialize :: "BasicData \<Rightarrow> u8 list" where
  "BasicData_serialize d = info d"

text \<open>
  \<^verbatim>\<open>CRC16(data)\<close>: \<^verbatim>\<open>getInteger<uint16_t, 2>(data)\<close> selects the iterator overload with the
  array itself as the iterator, indexed from its first element.
\<close>

definition CRC16 :: "u8 list \<Rightarrow> 16 word res" where
  "CRC16 bytes = rbind (getInteger_n 2 (front_ptr bytes)) (\<lambda>x. Inr (x + 0x4E))"

record BasicFooter =
  fcs :: "16 word"

definition BasicFooter_flag :: u8 where
  "BasicFooter_flag = 0xFE"

definition BasicFooter_init :: "u8 list \<Rightarrow> BasicFooter res" where
  "BasicFooter_init bytes = rbind (CRC16 bytes) (\<lambda>c. Inr \<lparr>fcs = c\<rparr>)"

definition BasicFooter_serialize :: "BasicFooter \<Rightarrow> u8 list res" where
  "BasicFooter_serialize f = byteArray2 (U16 (fcs f)) (U8 BasicFooter_flag)"

record HDLC =
  header :: BasicHeader
  payload :: BasicData
  footer :: BasicFooter

text \<open>
  The aggregate initialisation \<^verbatim>\<open>HDLCFrame{address, control, {info...}}\<close>; the footer comes
  from its default member initialiser \<^verbatim>\<open>footer{data.info}\<close>.
\<close>

definition HDLC_init :: "u8 \<Rightarrow> u8 \<Rightarrow> u8 list \<Rightarrow> HDLC res" where
  "HDLC_init a c bytes =
     rbind (BasicFooter_init bytes) (\<lambda>f.
       Inr \<lparr>header = \<lparr>address = a, control = c\<rparr>, payload = \<lparr>info = bytes\<rparr>, footer = f\<rparr>)"

definition HDLC_serialize :: "HDLC \<Rightarrow> u8 list res" where
  "HDLC_serialize frame =
     rbind (BasicHeader_serialize (header frame)) (\<lambda>h.
       rbind (BasicFooter_serialize (footer frame)) (\<lambda>f.
         merge h [BasicData_serialize (payload frame), f]))"

definition my_frame :: "HDLC res" where
  "my_frame = HDLC_init 0xCE 0x01 [0xDE, 0xAD, 0xBE, 0xEF, 0xFA, 0xCE, 0xB0, 0xA7]"

section \<open>Properties of the sequence builder and of merge\<close>

lemma rbind_Inr [simp]: "rbind (Inr x) f = f x"
  by (simp add: rbind_def)

lemma rbind_Inl [simp]: "rbind (Inl e) f = Inl e"
  by (simp add: rbind_def)

lemma collect_map:
  "(\<And>I. I \<in> set Is \<Longrightarrow> g I = Inr (f I)) \<Longrightarrow> collect (map g Is) = Inr (map f Is)"
  by (induction Is) simp_all

lemma read_pack_map:
  "(\<And>I. I \<in> set Is \<Longrightarrow> it_index it I = Inr (f I)) \<Longrightarrow> read_pack it Is = Inr (map f Is)"
  unfolding read_pack_def by (rule collect_map)

lemma it_index_forward:
  "0 \<le> p \<Longrightarrow> nat p + I < length buf \<Longrightarrow>
   it_index (Iterator buf False p) I = Inr (buf ! (nat p + I))"
  by (simp add: it_index_def read_at_def nat_add_distrib)

lemma it_index_backward:
  "I < nat b \<Longrightarrow> nat b \<le> length buf \<Longrightarrow>
   it_index (Iterator buf True b) I = Inr (buf ! (nat b - 1 - I))"
proof -
  assume "I < nat b" and "nat b \<le> length buf"
  then have "0 \<le> b - 1 - int I" and "b - 1 - int I < int (length buf)"
    and "nat (b - 1 - int I) = nat b - 1 - I"
    by linarith+
  then show ?thesis
    by (simp add: it_index_def read_at_def)
qed

lemma map_nth_take_drop:
  "p + n \<le> length buf \<Longrightarrow> map (\<lambda>I. buf ! (p + I)) [0..<n] = take n (drop p buf)"
  by (rule nth_equalityI) simp_all

lemma read_pack_forward:
  assumes "0 \<le> p" and "nat p + n \<le> length buf"
  shows "read_pack (Iterator buf False p) (make_index_sequence n) = Inr (take n (drop (nat p) buf))"
proof -
  have "read_pack (Iterator buf False p) [0..<n] = Inr (map (\<lambda>I. buf ! (nat p + I)) [0..<n])"
    using assms by (intro read_pack_map it_index_forward) simp_all
  then show ?thesis
    using assms by (simp add: make_index_sequence_def map_nth_take_drop)
qed

lemma read_pack_crbegin:
  "read_pack (crbegin buf) (make_index_sequence (length buf)) = Inr (rev buf)"
proof -
  have "read_pack (Iterator buf True (int (length buf))) [0..<length buf] =
        Inr (map (\<lambda>I. buf ! (nat (int (length buf)) - 1 - I)) [0..<length buf])"
    by (intro read_pack_map it_index_backward) simp_all
  moreover have "map (\<lambda>I. buf ! (length buf - 1 - I)) [0..<length buf] = rev buf"
    by (rule nth_equalityI) (simp_all add: rev_nth)
  ultimately show ?thesis
    by (simp add: crbegin_def make_index_sequence_def)
qed

lemma read_pack_all: "read_pack (front_ptr xs) (make_index_sequence (length xs)) = Inr xs"
  using read_pack_forward [of 0 "length xs" xs] by (simp add: front_ptr_def)

lemma array_seq_distance:
  "reversed lst = reversed first \<Longrightarrow> array_seq vmax first lst Is =
     (if it_distance first lst \<le> length Is then read_pack first Is
      else Inr (map (\<lambda>I. vmax) Is))"
  by (auto simp: array_seq_def it_distance_def it_diff_def Let_def)

lemma it_index_fault: "it_index it I = Inl e \<Longrightarrow> e = UndefinedBehaviour"
  by (simp add: it_index_def read_at_def split: if_splits)

lemma collect_Inl: "collect rs = Inl e \<Longrightarrow> Inl e \<in> set rs"
proof (induction rs)
  case Nil
  then show ?case by simp
next
  case (Cons r rs)
  then show ?case
    by (cases r; cases "collect rs") simp_all
qed

lemma read_pack_outcome:
  "case read_pack it Is of Inl e \<Rightarrow> e = UndefinedBehaviour | Inr xs \<Rightarrow> length xs = length Is"
proof (cases "read_pack it Is")
  case (Inl e)
  then have "Inl e \<in> set (map (it_index it) Is)"
    unfolding read_pack_def by (rule collect_Inl)
  then obtain I where "it_index it I = Inl e"
    by auto
  then have "e = UndefinedBehaviour"
    by (rule it_index_fault)
  with Inl show ?thesis by simp
next
  case (Inr xs)
  then have "length xs = length (map (it_index it) Is)"
    unfolding read_pack_def by (rule collect_length)
  with Inr show ?thesis by simp
qed

lemma upt_0_numeral: "[0..<numeral k] = [0..<pred_numeral k] @ [pred_numeral k]"
  by (simp add: numeral_eq_Suc)

lemma make_index_sequence_0: "make_index_sequence 0 = []"
  by (simp add: make_index_sequence_def)

lemma make_index_sequence_Suc: "make_index_sequence (Suc n) = make_index_sequence n @ [n]"
  by (simp add: make_index_sequence_def)

lemma make_index_sequence_numeral:
  "make_index_sequence (numeral k) = make_index_sequence (pred_numeral k) @ [pred_numeral k]"
  by (simp add: make_index_sequence_def upt_0_numeral)

lemmas index_sequence_eval =
  make_index_sequence_0 make_index_sequence_Suc make_index_sequence_numeral

lemma merge2_append: "merge2 A B = Inr (A @ B)"
  by (simp add: merge2_def merge_seq_def read_pack_all)

lemma merge_concat: "merge A Bs = Inr (A @ concat Bs)"
  by (induction A Bs rule: merge.induct) (simp_all add: merge1_def merge2_append)

text \<open>
  Claim C5.  Merging two fixed sequences \<open>A\<close> (length m) and \<open>B\<close> (length n) always
  yields a sequence of length m + n whose first m elements are \<open>A\<close> and whose
  remaining n elements are \<open>B\<close>, in order.
\<close>

theorem merge2_length_content:
  "\<exists>r. merge2 A B = Inr r \<and> length r = length A + length B \<and>
       take (length A) r = A \<and> drop (length A) r = B"
  by (simp add: merge2_append)

text \<open>
  Claim C6.  Merge is associative: merging \<open>A\<close> with \<open>B\<close> and the result with \<open>C\<close> gives
  the same sequence as merging \<open>A\<close> with the merge of \<open>B\<close> and \<open>C\<close>; the merge of three
  sequences is the former, and the merge of any number of sequences is the left-to-right
  fold of the binary merge over them.
\<close>

theorem merge_assoc_fold:
  "rbind (merge2 A B) (\<lambda>AB. merge2 AB C) = rbind (merge2 B C) (\<lambda>BC. merge2 A BC) \<and>
   merge A [B, C] = rbind (merge2 A B) (\<lambda>AB. merge2 AB C) \<and>
   merge A Bs = foldl (\<lambda>acc X. rbind acc (\<lambda>x. merge2 x X)) (Inr A) Bs"
proof -
  have fold: "foldl (\<lambda>acc X. rbind acc (\<lambda>x. merge2 x X)) (Inr A) Bs = Inr (A @ concat Bs)"
    for A :: "'a list" and Bs
    by (induction Bs arbitrary: A) (simp_all add: merge2_append)
  show ?thesis
    unfolding fold by (simp add: merge2_append merge_concat)
qed

text \<open>
  Claim C1, as amended.  A build request whose measured distance is strictly smaller than
  the requested length does not fail explicitly: the builder has no error path, so the
  request is not rejected and no error is returned, and a sequence that it returns has
  exactly the requested length.  Which elements such a sequence holds is left open.
\<close>

theorem array_range_shorter:
  assumes "reversed lst = reversed first" and "it_distance first lst < n"
  shows "case array_range vmax n first lst of
           Inl e \<Rightarrow> e \<noteq> IllFormed
         | Inr r \<Rightarrow> length r = n"
proof -
  have "array_range vmax n first lst = read_pack first (make_index_sequence n)"
    using assms by (simp add: array_range_def array_seq_distance make_index_sequence_def)
  then show ?thesis
    using read_pack_outcome [where it = first and Is = "make_index_sequence n"]
    by (simp add: make_index_sequence_def split: sum.splits)
qed

theorem array_range_shorter_witness:
  "it_distance (Iterator [1, 2, 3, 4 :: u8] False 1) (Iterator [1, 2, 3, 4] False 2) < 3 \<and>
   (case array_range 255 3 (Iterator [1, 2, 3, 4 :: u8] False 1) (Iterator [1, 2, 3, 4] False 2) of
      Inl e \<Rightarrow> e \<noteq> IllFormed
    | Inr r \<Rightarrow> length r = 3)"
proof -
  have d: "it_distance (Iterator [1, 2, 3, 4 :: u8] False 1) (Iterator [1, 2, 3, 4] False 2) < 3"
    by (simp add: it_distance_def it_diff_def)
  have r: "reversed (Iterator [1, 2, 3, 4 :: u8] False 2) = reversed (Iterator [1, 2, 3, 4 :: u8] False 1)"
    by simp
  show ?thesis
    using array_range_shorter [OF r d, of 255] d by simp
qed

text \<open>
  An explicit failure does not happen: with four stored elements and a range of
  distance 2, a request for 3 elements returns a sequence of three elements.
\<close>

theorem array_range_shorter_counterexample:
  "it_distance (Iterator [1, 2, 3, 4 :: u8] False 0) (Iterator [1, 2, 3, 4] False 2) < 3 \<and>
   array_range 255 3 (Iterator [1, 2, 3, 4 :: u8] False 0) (Iterator [1, 2, 3, 4] False 2)
     = Inr [1, 2, 3]"
  by (simp add: it_distance_def it_diff_def array_range_def array_seq_def index_sequence_eval
     read_pack_def it_index_def read_at_def)

text \<open>
  Claim C9.  When the measured distance of the range strictly exceeds the requested
  length \<open>n\<close>, the builder returns \<open>n\<close> copies of the maximum value of the element
  type, whatever the range holds: its first \<open>n\<close> elements are not copied.
\<close>

theorem array_range_longer:
  "reversed lst = reversed first \<Longrightarrow> n < it_distance first lst \<Longrightarrow>
   array_range vmax n first lst = Inr (replicate n vmax)"
  by (simp add: array_range_def array_seq_distance make_index_sequence_def map_replicate_const)

theorem array_range_longer_witness:
  "2 < it_distance (Iterator [1, 2, 3, 4 :: u8] False 0) (Iterator [1, 2, 3, 4] False 4) \<and>
   array_range 255 2 (Iterator [1, 2, 3, 4 :: u8] False 0) (Iterator [1, 2, 3, 4] False 4)
     = Inr [255, 255]"
proof -
  have r: "reversed (Iterator [1, 2, 3, 4 :: u8] False 4) = reversed (Iterator [1, 2, 3, 4 :: u8] False 0)"
    by simp
  have d: "2 < it_distance (Iterator [1, 2, 3, 4 :: u8] False 0) (Iterator [1, 2, 3, 4] False 4)"
    by (simp add: it_distance_def it_diff_def)
  show ?thesis
    using array_range_longer [OF r d, of 255] d by (simp add: numeral_2_eq_2)
qed

section \<open>Properties of the byte splitter and of the byte assembler\<close>

lemma ucast_byte: 
  "8 \<le> LENGTH('a) \<Longrightarrow> (ucast (ucast (x :: 'a::len word) :: u8) :: 'a word) = take_bit 8 x"
  by (rule bit_word_eqI) (auto simp: bit_simps)

lemma byte_step:
  fixes v :: "'a::len word"
  assumes "8 \<le> LENGTH('a)"
  shows "take_bit (8 * k) v + push_bit (8 * k) (ucast (ucast (drop_bit (8 * k) v) :: u8))
         = take_bit (8 * Suc k) v"
proof -
  have "push_bit (8 * k) (drop_bit (8 * k) (take_bit (8 * k + 8) v)) + take_bit (8 * k) (take_bit (8 * k + 8) v)
        = take_bit (8 * k + 8) v"
    by (rule bits_ident)
  moreover have "drop_bit (8 * k) (take_bit (8 * k + 8) v) = take_bit 8 (drop_bit (8 * k) v)"
    by (simp add: drop_bit_take_bit)
  moreover have "take_bit (8 * k) (take_bit (8 * k + 8) v) = take_bit (8 * k) v"
    by simp
  ultimately show ?thesis
    using assms by (simp add: ucast_byte add.commute)
qed

lemma bytes_sum:
  fixes v :: "'a::len word"
  assumes "8 \<le> LENGTH('a)"
  shows "(\<Sum>I\<leftarrow>[0..<k]. push_bit (8 * I) (ucast (ucast (drop_bit (8 * I) v) :: u8))) = take_bit (8 * k) v"
proof (induction k)
  case 0
  show ?case by simp
next
  case (Suc k)
  then show ?case using byte_step [OF assms, of k v] by simp
qed

lemma getInteger_pack_sum:
  fixes rv :: "'a::len word"
  assumes "\<And>I. I \<in> set Is \<Longrightarrow> it_index LSB I = Inr (f I) \<and> 8 * I < promoted_bits rv"
  shows "getInteger_pack LSB Is rv = Inr (rv + (\<Sum>I\<leftarrow>Is. push_bit (8 * I) (ucast (f I))))"
  using assms
proof (induction Is arbitrary: rv)
  case Nil
  show ?case by simp
next
  case (Cons I Is)
  have p: "promoted_bits (rv + push_bit (8 * I) (ucast (f I))) = promoted_bits rv"
    by (simp add: promoted_bits_def)
  have "getInteger_pack LSB (I # Is) rv = getInteger_pack LSB Is (rv + push_bit (8 * I) (ucast (f I)))"
    using Cons.prems [of I] by simp
  also have "\<dots> = Inr (rv + push_bit (8 * I) (ucast (f I)) + (\<Sum>I\<leftarrow>Is. push_bit (8 * I) (ucast (f I))))"
    using Cons.prems by (intro Cons.IH) (simp add: p)
  finally show ?case by (simp add: add.assoc)
qed

lemma object_bytes_length: "length (object_bytes v) = sizeof_of v"
  by (simp add: object_bytes_def)

lemma array_from_front: "array_from vmax (length bs) (front_ptr bs) = Inr bs"
  by (simp add: array_from_def array_range_def array_seq_def it_plus_def it_diff_def
      front_ptr_def make_index_sequence_def read_pack_all [unfolded front_ptr_def make_index_sequence_def])

lemma array_from_crbegin: "array_from vmax (length bs) (crbegin bs) = Inr (rev bs)"
  by (simp add: array_from_def array_range_def array_seq_def it_plus_def it_diff_def
      crbegin_def make_index_sequence_def read_pack_crbegin [unfolded crbegin_def make_index_sequence_def])

lemma byteArray_eq: "byteArray v = Inr (object_bytes v)"
  using array_from_front [of uint8_max "object_bytes v"]
  by (simp add: byteArray_def byteArray_order_def LSB_is_native_def object_bytes_length)

lemma reverseByteArray_eq: "reverseByteArray v = Inr (rev (object_bytes v))"
  using array_from_crbegin [of uint8_max "object_bytes v"]
  by (simp add: reverseByteArray_def byteArray_order_def LSB_is_native_def object_bytes_length)

lemma getInteger_n_front:
  assumes "n \<le> length bs" and "8 * n \<le> promoted_bits (0 :: 'a word)"
  shows "(getInteger_n n (front_ptr bs) :: 'a::len word res) =
         Inr (\<Sum>I\<leftarrow>[0..<n]. push_bit (8 * I) (ucast (bs ! I)))"
proof -
  have "getInteger_pack (front_ptr bs) [0..<n] (0 :: 'a word) =
        Inr (0 + (\<Sum>I\<leftarrow>[0..<n]. push_bit (8 * I) (ucast (bs ! I))))"
  proof (rule getInteger_pack_sum)
    fix I assume "I \<in> set [0..<n]"
    then have "I < n" by simp
    with assms show "it_index (front_ptr bs) I = Inr (bs ! I) \<and> 8 * I < promoted_bits (0 :: 'a word)"
      using it_index_forward [of 0 I bs] by (simp add: front_ptr_def)
  qed
  then show ?thesis
    by (simp add: getInteger_n_def getInteger_seq_def make_index_sequence_def)
qed

lemma it_index_crbegin:
  "I < length bs \<Longrightarrow> it_index (crbegin bs) I = Inr (rev bs ! I)"
  using it_index_backward [of I "int (length bs)" bs] by (simp add: crbegin_def rev_nth)

lemma getInteger_n_crbegin:
  assumes "n \<le> length bs" and "8 * n \<le> promoted_bits (0 :: 'a word)"
  shows "(getInteger_n n (crbegin bs) :: 'a::len word res) =
         Inr (\<Sum>I\<leftarrow>[0..<n]. push_bit (8 * I) (ucast (rev bs ! I)))"
proof -
  have "getInteger_pack (crbegin bs) [0..<n] (0 :: 'a word) =
        Inr (0 + (\<Sum>I\<leftarrow>[0..<n]. push_bit (8 * I) (ucast (rev bs ! I))))"
  proof (rule getInteger_pack_sum)
    fix I assume "I \<in> set [0..<n]"
    then have "I < n" by simp
    with assms show "it_index (crbegin bs) I = Inr (rev bs ! I) \<and> 8 * I < promoted_bits (0 :: 'a word)"
      by (simp add: it_index_crbegin)
  qed
  then show ?thesis
    by (simp add: getInteger_n_def getInteger_seq_def make_index_sequence_def)
qed

lemma sizeof_bits: "8 dvd LENGTH('a) \<Longrightarrow> 8 * sizeof_of (v :: 'a::len word) = LENGTH('a)"
  by (simp add: sizeof_of_def)

lemma object_bytes_sum:
  fixes v :: "'a::len word"
  assumes "8 dvd LENGTH('a)"
  shows "(\<Sum>I\<leftarrow>[0..<sizeof_of v]. push_bit (8 * I) (ucast (object_bytes v ! I))) = v"
proof -
  have len: "8 \<le> LENGTH('a)"
    using assms by (intro dvd_imp_le) simp_all
  have "(\<Sum>I\<leftarrow>[0..<sizeof_of v]. push_bit (8 * I) (ucast (object_bytes v ! I)) :: 'a word) =
        (\<Sum>I\<leftarrow>[0..<sizeof_of v]. push_bit (8 * I) (ucast (ucast (drop_bit (8 * I) v) :: u8)))"
    by (rule arg_cong [where f = sum_list], rule map_cong) (simp_all add: object_bytes_def)
  also have "\<dots> = take_bit (8 * sizeof_of v) v"
    by (rule bytes_sum [OF len])
  also have "\<dots> = v"
    using assms by (simp add: sizeof_bits)
  finally show ?thesis .
qed

lemma object_bytes_u8: "object_bytes (v :: 8 word) = [v]"
  by (simp add: object_bytes_def sizeof_of_def)

lemma object_bytes_u16: "object_bytes (v :: 16 word) = [ucast v, ucast (drop_bit 8 v)]"
  by (simp add: object_bytes_def sizeof_of_def upt_0_numeral)

text \<open>
  Claim C3.  For every scalar \<open>v\<close> whose width is a whole number \<open>W\<close> of bytes, splitting
  \<open>v\<close> into bytes in native order (least significant byte first) succeeds with \<open>W\<close>
  bytes, and assembling these \<open>W\<close> bytes, through the iterator overload with count \<open>W\<close>
  as well as through the array overload, gives \<open>v\<close> again.
\<close>

theorem getInteger_byteArray:
  fixes v :: "'a::len word"
  assumes "8 dvd LENGTH('a)"
  shows "\<exists>bs. byteArray v = Inr bs \<and> length bs = sizeof_of v \<and>
              getInteger_n (sizeof_of v) (front_ptr bs) = Inr v \<and>
              getInteger_arr bs = Inr v"
proof -
  have "8 * sizeof_of v \<le> promoted_bits (0 :: 'a word)"
    using assms by (simp add: sizeof_bits promoted_bits_def)
  then have n: "getInteger_n (sizeof_of v) (front_ptr (object_bytes v)) = Inr v"
    using assms by (simp add: getInteger_n_front object_bytes_length object_bytes_sum)
  then have "getInteger_arr (object_bytes v) = Inr v"
    by (simp add: getInteger_arr_def getInteger_n_def object_bytes_length sizeof_of_def)
  with n show ?thesis
    by (simp add: byteArray_eq object_bytes_length)
qed

theorem getInteger_byteArray_witness:
  "8 dvd LENGTH(16) \<and> byteArray (0x1234 :: 16 word) = Inr [0x34, 0x12] \<and>
   getInteger_n 2 (front_ptr [0x34, 0x12]) = Inr (0x1234 :: 16 word) \<and>
   getInteger_arr [0x34, 0x12] = Inr (0x1234 :: 16 word)"
proof -
  have d: "8 dvd LENGTH(16)"
    by simp
  have b: "byteArray (0x1234 :: 16 word) = Inr [0x34, 0x12]"
    by (simp add: byteArray_eq object_bytes_u16)
  have s: "sizeof_of (0x1234 :: 16 word) = 2"
    by (simp add: sizeof_of_def)
  show ?thesis
    using getInteger_byteArray [OF d, of "0x1234"] unfolding b s by simp
qed

text \<open>
  Claim C7.  For every scalar \<open>v\<close> whose width is a whole number \<open>W\<close> of bytes,
  \<^verbatim>\<open>reverseByteArray(v)\<close> is the reversed-order split: the native byte sequence of \<open>v\<close> in
  the opposite order.  Assembling its \<open>W\<close> bytes read most significant first, that is from
  its last byte backwards, gives \<open>v\<close> again.
\<close>

theorem reverseByteArray_roundtrip:
  fixes v :: "'a::len word"
  assumes "8 dvd LENGTH('a)"
  shows "reverseByteArray v = byteArray_order False v \<and>
         (\<exists>bs. byteArray v = Inr bs \<and> length bs = sizeof_of v \<and>
              reverseByteArray v = Inr (rev bs) \<and>
              getInteger_n (sizeof_of v) (crbegin (rev bs)) = Inr v)"
proof -
  have "8 * sizeof_of v \<le> promoted_bits (0 :: 'a word)"
    using assms by (simp add: sizeof_bits promoted_bits_def)
  then have "getInteger_n (sizeof_of v) (crbegin (rev (object_bytes v))) = Inr v"
    using assms by (simp add: getInteger_n_crbegin object_bytes_length object_bytes_sum)
  then show ?thesis
    by (simp add: byteArray_eq reverseByteArray_eq [symmetric] object_bytes_length)
      (simp add: reverseByteArray_def)
qed

theorem reverseByteArray_roundtrip_witness:
  "8 dvd LENGTH(16) \<and> byteArray (0x1234 :: 16 word) = Inr [0x34, 0x12] \<and>
   reverseByteArray (0x1234 :: 16 word) = Inr [0x12, 0x34] \<and>
   getInteger_n 2 (crbegin [0x12, 0x34]) = Inr (0x1234 :: 16 word)"
proof -
  have d: "8 dvd LENGTH(16)"
    by simp
  have b: "byteArray (0x1234 :: 16 word) = Inr [0x34, 0x12]"
    by (simp add: byteArray_eq object_bytes_u16)
  have s: "sizeof_of (0x1234 :: 16 word) = 2"
    by (simp add: sizeof_of_def)
  show ?thesis
    using reverseByteArray_roundtrip [OF d, of "0x1234"] unfolding b s
    by (simp add: reverseByteArray_def)
qed

text \<open>
  Claim C4.  The claim asks that assembling \<open>count\<close> bytes into a type of fewer than
  \<open>8 * count\<close> bits be rejected before any accumulation.  The array overload does so by
  its \<^verbatim>\<open>static_assert\<close>; the iterator overload \<^verbatim>\<open>getInteger<T, size>(first)\<close> has no such
  check: assembling the two bytes 0x34, 0x12 into an 8-bit type compiles and returns 0x34,
  the byte 0x12 being shifted out silently.  (Within the precondition, both overloads
  return the little-endian accumulation, see \<open>getInteger_n_front\<close>.)
\<close>

theorem getInteger_n_truncates:
  "getInteger_n 2 (front_ptr [0x34, 0x12]) = Inr (0x34 :: 8 word) \<and>
   getInteger_arr [0x34, 0x12] = (Inl IllFormed :: 8 word res)"
  by (simp add: getInteger_n_def getInteger_arr_def getInteger_seq_def index_sequence_eval
      front_ptr_def it_index_def read_at_def promoted_bits_def int_bits_def sizeof_of_def)

lemma uint_drop_bit_div: "uint (drop_bit n v) = uint (v :: 'b::len word) div 2 ^ n"
proof -
  have "uint (drop_bit n v) = drop_bit n (uint (take_bit LENGTH('b) v))"
    by (simp only: unsigned_drop_bit_eq unsigned_take_bit_eq)
  also have "\<dots> = drop_bit n (uint v)"
    by simp
  also have "\<dots> = uint v div 2 ^ n"
    by (rule drop_bit_eq_div)
  finally show ?thesis .
qed

lemma sint_signed_drop_bit_div: "sint (signed_drop_bit n v) = sint (v :: 'b::len word) div 2 ^ n"
proof -
  have "sint (signed_drop_bit n v) = drop_bit n (sint v)"
    by (rule sint_signed_drop_bit_eq)
  also have "\<dots> = sint v div 2 ^ n"
    by (rule drop_bit_eq_div)
  finally show ?thesis .
qed

lemma logical_shift_cast:
  "(word_of_int (uint (v :: 'b::len word) div 2 ^ n) :: 'a::len word) = ucast (drop_bit n v)"
  by (simp add: ucast_eq uint_drop_bit_div)

lemma arithmetic_shift_cast:
  "(word_of_int (sint (v :: 'b::len word) div 2 ^ n) :: 'a::len word) = scast (signed_drop_bit n v)"
  by (simp add: scast_eq sint_signed_drop_bit_div)

lemma logical_shift_zero: "uint (v :: 'b::len word) div 2 ^ n = 0 \<longleftrightarrow> drop_bit n v = 0"
proof -
  have "drop_bit n v = 0 \<longleftrightarrow> uint (drop_bit n v) = 0"
    by (simp add: unsigned_eq_0_iff)
  then show ?thesis
    by (simp add: uint_drop_bit_div)
qed

lemma arithmetic_shift_zero:
  "sint (v :: 'b::len word) div 2 ^ n = 0 \<longleftrightarrow> signed_drop_bit n v = 0"
proof -
  have "signed_drop_bit n v = 0 \<longleftrightarrow> sint (signed_drop_bit n v) = 0"
    by (simp add: signed_eq_0_iff)
  then show ?thesis
    by (simp add: sint_signed_drop_bit_div)
qed

text \<open>
  Claim C8, as amended.  For integral \<open>T\<close> and \<open>Tval\<close>, a byte offset not exceeding the
  byte width of \<open>Tval\<close>, and a shift count \<open>8 * offset\<close> below the width of the promoted
  source, \<^verbatim>\<open>getInteger<T, Tval, offset>(value)\<close> is the source shifted right by
  \<open>8 * offset\<close> bits and converted to \<open>T\<close>.  The shift is logical for an unsigned source
  and arithmetic (sign-filling) for a signed one; the conversion narrows to the width of
  an integer type \<open>T\<close>, and to \<^verbatim>\<open>bool\<close> it tells whether the shifted value is not zero.
  A non-integral source or destination type and an offset larger than the byte width of
  the source are rejected at build time.
\<close>

theorem getInteger_shift_value:
  fixes v :: "'b::len word"
  shows
  "(T = NonIntegral \<or> Tval = NonIntegral \<or> sizeof_of v < offset \<longrightarrow>
      getInteger_shift T Tval offset v = (Inl IllFormed :: 'a::len word res)) \<and>
   (T \<noteq> NonIntegral \<and> Tval \<noteq> NonIntegral \<and> offset \<le> sizeof_of v \<and>
    8 * offset < promoted_bits v \<longrightarrow>
      getInteger_shift T Tval offset v =
        (Inr (if T = BoolType
              then (if Tval = SignedInt
                    then (if signed_drop_bit (8 * offset) v \<noteq> 0 then 1 else 0)
                    else (if drop_bit (8 * offset) v \<noteq> 0 then 1 else 0))
              else (if Tval = SignedInt then scast (signed_drop_bit (8 * offset) v)
                    else ucast (drop_bit (8 * offset) v))) :: 'a word res))"
  by (auto simp: getInteger_shift_def static_cast_int_def logical_shift_cast
      arithmetic_shift_cast logical_shift_zero arithmetic_shift_zero)

theorem getInteger_shift_value_witness:
  "sizeof_of (0xABCD :: 16 word) < 3 \<and>
   getInteger_shift UnsignedInt UnsignedInt 3 (0xABCD :: 16 word) = (Inl IllFormed :: 8 word res) \<and>
   1 \<le> sizeof_of (0xABCD :: 16 word) \<and> 8 * 1 < promoted_bits (0xABCD :: 16 word) \<and>
   getInteger_shift UnsignedInt UnsignedInt 1 (0xABCD :: 16 word) = Inr (0xAB :: 8 word) \<and>
   getInteger_shift SignedInt SignedInt 1 (0xABCD :: 16 word) = Inr (0xFFAB :: 16 word) \<and>
   getInteger_shift BoolType UnsignedInt 1 (0x0200 :: 16 word) = Inr (1 :: 8 word) \<and>
   getInteger_shift BoolType UnsignedInt 1 (0x00FF :: 16 word) = Inr (0 :: 8 word)"
proof -
  have s: "sizeof_of (w :: 16 word) = 2" for w
    by (simp add: sizeof_of_def)
  have p: "promoted_bits (w :: 16 word) = 32" for w
    by (simp add: promoted_bits_def int_bits_def)
  show ?thesis
    using getInteger_shift_value [of UnsignedInt UnsignedInt "0xABCD :: 16 word" 3, where ?'a = 8]
      getInteger_shift_value [of UnsignedInt UnsignedInt "0xABCD :: 16 word" 1, where ?'a = 8]
      getInteger_shift_value [of SignedInt SignedInt "0xABCD :: 16 word" 1, where ?'a = 16]
      getInteger_shift_value [of BoolType UnsignedInt "0x0200 :: 16 word" 1, where ?'a = 8]
      getInteger_shift_value [of BoolType UnsignedInt "0x00FF :: 16 word" 1, where ?'a = 8]
    by (simp add: s p)
qed

text \<open>
  A signed 32-bit source with bit pattern 0xFFFFFF00 and offset 1 gives 0xFFFFFFFF, whereas
  the logical shift of this pattern, narrowed to 32 bits, is 0x00FFFFFF.  The unsigned
  16-bit source 0x0200 with offset 1 gives \<^verbatim>\<open>true\<close> as a \<^verbatim>\<open>bool\<close>, whereas its logical shift
  narrowed to a byte is 2.
\<close>

theorem getInteger_shift_value_counterexample:
  "getInteger_shift SignedInt SignedInt 1 (0xFFFFFF00 :: 32 word) = Inr (0xFFFFFFFF :: 32 word) \<and>
   ucast (drop_bit (8 * 1) (0xFFFFFF00 :: 32 word)) = (0x00FFFFFF :: 32 word) \<and>
   getInteger_shift BoolType UnsignedInt 1 (0x0200 :: 16 word) = Inr (1 :: 8 word) \<and>
   ucast (drop_bit (8 * 1) (0x0200 :: 16 word)) = (2 :: 8 word)"
  by (simp add: getInteger_shift_def static_cast_int_def sizeof_of_def promoted_bits_def
      int_bits_def)

lemma byteArray_seq_front:
  "arr \<noteq> [] \<Longrightarrow>
   byteArray_seq (front_ptr arr) (make_index_sequence (length arr)) = Inr (concat (map object_bytes arr))"
proof -
  assume ne: "arr \<noteq> []"
  have "collect (map (\<lambda>I. rbind (it_index (front_ptr arr) I) byteArray) [0..<length arr]) =
        Inr (map (\<lambda>I. object_bytes (arr ! I)) [0..<length arr])"
  proof (rule collect_map)
    fix I assume "I \<in> set [0..<length arr]"
    then show "rbind (it_index (front_ptr arr) I) byteArray = Inr (object_bytes (arr ! I))"
      using it_index_forward [of 0 I arr] by (simp add: front_ptr_def byteArray_eq)
  qed
  moreover have "map (\<lambda>I. object_bytes (arr ! I)) [0..<length arr] = map object_bytes arr"
    by (rule nth_equalityI) simp_all
  ultimately have "byteArray_seq (front_ptr arr) (make_index_sequence (length arr)) =
      (case map object_bytes arr of [] \<Rightarrow> Inl IllFormed | arrA # arrN \<Rightarrow> merge arrA arrN)"
    by (simp add: byteArray_seq_def make_index_sequence_def)
  with ne show ?thesis
    by (cases arr) (simp_all add: merge_concat)
qed

lemma byteArray_arr_eq: "arr \<noteq> [] \<Longrightarrow> byteArray_arr arr = Inr (concat (map object_bytes arr))"
  by (simp add: byteArray_arr_def byteArray_n_def byteArray_seq_front)

lemma byteArray_arr_empty: "byteArray_arr [] = Inl IllFormed"
  by (simp add: byteArray_arr_def byteArray_n_def byteArray_seq_def make_index_sequence_def)

lemma byteArray_arr_u8: "arr \<noteq> [] \<Longrightarrow> byteArray_arr (arr :: u8 list) = Inr arr"
proof -
  have "concat (map object_bytes arr) = arr"
    by (induction arr) (simp_all add: object_bytes_u8)
  then show "arr \<noteq> [] \<Longrightarrow> byteArray_arr arr = Inr arr"
    by (simp add: byteArray_arr_eq)
qed

lemma length_make_index_sequence: "length (make_index_sequence n) = n"
  by (simp add: make_index_sequence_def)

lemma reversed_range: "array_range vmax (length arr) (crbegin arr) (crend arr) = Inr (rev arr)"
  by (simp add: array_range_def array_seq_def it_diff_def crbegin_def crend_def
      length_make_index_sequence read_pack_crbegin [unfolded crbegin_def])

lemma reverseByteArray_arr_eq:
  "arr \<noteq> [] \<Longrightarrow> reverseByteArray_arr vmax arr = Inr (concat (map object_bytes (rev arr)))"
  by (simp add: reverseByteArray_arr_def reversed_range byteArray_arr_eq)

lemma concat_map_eq_iff:
  assumes "\<And>x. x \<in> set xs \<Longrightarrow> length (f x) = length (g x)"
  shows "concat (map f xs) = concat (map g xs) \<longleftrightarrow> (\<forall>x\<in>set xs. f x = g x)"
  using assms by (induction xs) auto

text \<open>
  Claim C10, as amended.  \<^verbatim>\<open>reverseByteArray(arr)\<close> over a non-empty fixed sequence of scalars
  reverses the order of the elements only: its output is the concatenation, over the
  elements in reversed order, of each element's bytes in native order, as
  \<^verbatim>\<open>byteArray\<close> of that element gives them.  It is the full byte-wise reversal of
  \<^verbatim>\<open>byteArray(arr)\<close> exactly when the native byte sequence of every element reads the same
  in both directions, and differs from it otherwise.
\<close>

theorem reverseByteArray_arr_elements:
  fixes arr :: "'a::len word list"
  assumes "arr \<noteq> []"
  shows "\<exists>bs. byteArray_arr arr = Inr bs \<and>
     reverseByteArray_arr vmax arr = Inr (concat (map object_bytes (rev arr))) \<and>
     (\<forall>x\<in>set arr. byteArray x = Inr (object_bytes x)) \<and>
     (reverseByteArray_arr vmax arr = Inr (rev bs) \<longleftrightarrow>
        (\<forall>x\<in>set arr. rev (object_bytes x) = object_bytes x))"
proof -
  have "rev (concat (map object_bytes arr)) = concat (map (\<lambda>x. rev (object_bytes x)) (rev arr))"
    by (simp add: rev_concat rev_map comp_def)
  moreover have "concat (map object_bytes (rev arr)) = concat (map (\<lambda>x. rev (object_bytes x)) (rev arr))
      \<longleftrightarrow> (\<forall>x\<in>set (rev arr). object_bytes x = rev (object_bytes x))"
    by (rule concat_map_eq_iff) simp
  ultimately have "concat (map object_bytes (rev arr)) = rev (concat (map object_bytes arr))
      \<longleftrightarrow> (\<forall>x\<in>set arr. rev (object_bytes x) = object_bytes x)"
    by auto
  with assms show ?thesis
    by (simp add: byteArray_arr_eq reverseByteArray_arr_eq byteArray_eq)
qed

theorem reverseByteArray_arr_elements_witness:
  "[0x1234, 0x5678 :: 16 word] \<noteq> [] \<and>
   byteArray_arr [0x1234, 0x5678 :: 16 word] = Inr [0x34, 0x12, 0x78, 0x56] \<and>
   reverseByteArray_arr 0xFFFF [0x1234, 0x5678 :: 16 word] = Inr [0x78, 0x56, 0x34, 0x12] \<and>
   reverseByteArray_arr 0xFFFF [0x1234, 0x5678 :: 16 word] \<noteq> Inr (rev [0x34, 0x12, 0x78, 0x56])"
proof -
  have ne: "[0x1234, 0x5678 :: 16 word] \<noteq> []"
    by simp
  have b: "byteArray_arr [0x1234, 0x5678 :: 16 word] = Inr [0x34, 0x12, 0x78, 0x56]"
    by (simp add: byteArray_arr_eq object_bytes_u16)
  show ?thesis
    using reverseByteArray_arr_elements [OF ne, where vmax = "0xFFFF"] unfolding b
    by (simp add: object_bytes_u16)
qed

text \<open>
  For the two 16-bit elements 0x0101 and 0x0202 the output is the full byte-wise reversal
  of \<^verbatim>\<open>byteArray\<close> of the same sequence.
\<close>

theorem reverseByteArray_arr_elements_counterexample:
  "1 < sizeof_of (0x0101 :: 16 word) \<and>
   byteArray_arr [0x0101, 0x0202 :: 16 word] = Inr [1, 1, 2, 2] \<and>
   reverseByteArray_arr 0xFFFF [0x0101, 0x0202 :: 16 word] = Inr (rev [1, 1, 2, 2])"
  by (simp add: byteArray_arr_eq reverseByteArray_arr_eq object_bytes_u16 sizeof_of_def)

section \<open>Properties of the frame\<close>

lemma BasicHeader_serialize_eq:
  "BasicHeader_serialize h = Inr [BasicHeader_flag, address h, control h]"
  by (simp add: BasicHeader_serialize_def byteArray2_def byteArray_eq object_bytes_u8
      merge2_append byteArray_arr_u8)

lemma BasicFooter_serialize_eq:
  "BasicFooter_serialize f = Inr [ucast (fcs f), ucast (drop_bit 8 (fcs f)), BasicFooter_flag]"
  by (simp add: BasicFooter_serialize_def byteArray2_def byteArray_eq object_bytes_u8
      object_bytes_u16 merge2_append)

lemma CRC16_eq:
  "2 \<le> length bytes \<Longrightarrow>
   CRC16 bytes = Inr (ucast (bytes ! 0) + push_bit 8 (ucast (bytes ! 1)) + 0x4E)"
  by (simp add: CRC16_def getInteger_n_front promoted_bits_def int_bits_def upt_0_numeral)

text \<open>
  Claim C2.  For the frame with header address 0xCE, control 0x01 and payload
  DE AD BE EF FA CE B0 A7, the first two payload bytes read as a little-endian 16-bit
  integer are 0xADDE, the footer checksum is 0xADDE + 0x4E = 0xAE2C, the three parts
  serialize to FE CE 01, to the payload itself and to 2C AE FE, and the frame serializes
  to the merge of the three, the 14 bytes FE CE 01 DE AD BE EF FA CE B0 A7 2C AE FE.
\<close>

theorem my_frame_serialize:
  "getInteger_n 2 (front_ptr [0xDE, 0xAD, 0xBE, 0xEF, 0xFA, 0xCE, 0xB0, 0xA7]) = Inr (0xADDE :: 16 word) \<and>
   CRC16 [0xDE, 0xAD, 0xBE, 0xEF, 0xFA, 0xCE, 0xB0, 0xA7] = Inr (0xADDE + 0x4E) \<and>
   my_frame = Inr \<lparr>header = \<lparr>address = 0xCE, control = 0x01\<rparr>,
                   payload = \<lparr>info = [0xDE, 0xAD, 0xBE, 0xEF, 0xFA, 0xCE, 0xB0, 0xA7]\<rparr>,
                   footer = \<lparr>fcs = 0xAE2C\<rparr>\<rparr> \<and>
   BasicHeader_serialize \<lparr>address = 0xCE, control = 0x01\<rparr> = Inr [0xFE, 0xCE, 0x01] \<and>
   BasicData_serialize \<lparr>info = [0xDE, 0xAD, 0xBE, 0xEF, 0xFA, 0xCE, 0xB0, 0xA7]\<rparr> =
     [0xDE, 0xAD, 0xBE, 0xEF, 0xFA, 0xCE, 0xB0, 0xA7] \<and>
   BasicFooter_serialize \<lparr>fcs = 0xAE2C\<rparr> = Inr [0x2C, 0xAE, 0xFE] \<and>
   merge [0xFE, 0xCE, 0x01] [ [0xDE, 0xAD, 0xBE, 0xEF, 0xFA, 0xCE, 0xB0, 0xA7], [0x2C, 0xAE, 0xFE]] =
     Inr [0xFE, 0xCE, 0x01, 0xDE, 0xAD, 0xBE, 0xEF, 0xFA, 0xCE, 0xB0, 0xA7, 0x2C, 0xAE, 0xFE :: u8] \<and>
   rbind my_frame HDLC_serialize =
     Inr [0xFE, 0xCE, 0x01, 0xDE, 0xAD, 0xBE, 0xEF, 0xFA, 0xCE, 0xB0, 0xA7, 0x2C, 0xAE, 0xFE]"
proof -
  have g: "getInteger_n 2 (front_ptr [0xDE, 0xAD, 0xBE, 0xEF, 0xFA, 0xCE, 0xB0, 0xA7]) = Inr (0xADDE :: 16 word)"
    by (simp add: getInteger_n_front promoted_bits_def int_bits_def upt_0_numeral)
  have c: "CRC16 [0xDE, 0xAD, 0xBE, 0xEF, 0xFA, 0xCE, 0xB0, 0xA7] = Inr 0xAE2C"
    by (simp add: CRC16_def g)
  have f: "my_frame = Inr \<lparr>header = \<lparr>address = 0xCE, control = 0x01\<rparr>,
                   payload = \<lparr>info = [0xDE, 0xAD, 0xBE, 0xEF, 0xFA, 0xCE, 0xB0, 0xA7]\<rparr>,
                   footer = \<lparr>fcs = 0xAE2C\<rparr>\<rparr>"
    by (simp add: my_frame_def HDLC_init_def BasicFooter_init_def c)
  have h: "BasicHeader_serialize \<lparr>address = 0xCE, control = 0x01\<rparr> = Inr [0xFE, 0xCE, 0x01]"
    by (simp add: BasicHeader_serialize_eq BasicHeader_flag_def)
  have t: "BasicFooter_serialize \<lparr>fcs = 0xAE2C\<rparr> = Inr [0x2C, 0xAE, 0xFE]"
    by (simp add: BasicFooter_serialize_eq BasicFooter_flag_def)
  have s: "rbind my_frame HDLC_serialize =
     Inr [0xFE, 0xCE, 0x01, 0xDE, 0xAD, 0xBE, 0xEF, 0xFA, 0xCE, 0xB0, 0xA7, 0x2C, 0xAE, 0xFE]"
    by (simp add: f HDLC_serialize_def h t BasicData_serialize_def merge2_append)
  show ?thesis
    using g c f h t s by (simp add: BasicData_serialize_def merge2_append)
qed

end
